theory Spec2Isabelle
  imports Main
begin

section \<open>QR generator: classification, normalisation, file names, temporary files\<close>

text \<open>
  A shallow embedding of \<^verbatim>\<open>tools/generate_qr.py\<close>.

  Strings. A Python \<^verbatim>\<open>str\<close> is a sequence of code points. This development covers the
  strings whose code points are below 256: a \<^typ>\<open>char\<close> is one code point, \<^typ>\<open>string\<close> is
  a Python string and \<^term>\<open>length\<close> counts code points. The character classes below are
  those of CPython on that range (\<^verbatim>\<open>str.isspace\<close>, the classes \<^verbatim>\<open>\s \d \w\<close> of
  \<^verbatim>\<open>re\<close> on \<^verbatim>\<open>str\<close> patterns, \<^verbatim>\<open>str.lower\<close>, \<^verbatim>\<open>str.upper\<close>). Code points from 256 on,
  where one character may lower-case to two, are outside the model.
\<close>

subsection \<open>Characters\<close>

definition ord :: "char \<Rightarrow> nat" where
  "ord c = of_char c"

definition chr :: "nat \<Rightarrow> char" where
  "chr n = char_of n"

definition py_isspace :: "char \<Rightarrow> bool" where
  \<comment> \<open>TAB, LF, VT, FF, CR, FS, GS, RS, US, SPACE, NEL, NBSP\<close>
  "py_isspace c =
     (let n = ord c in (9 \<le> n \<and> n \<le> 13) \<or> (28 \<le> n \<and> n \<le> 32) \<or> n = 133 \<or> n = 160)"

definition py_isdecimal :: "char \<Rightarrow> bool" where
  "py_isdecimal c = (let n = ord c in 48 \<le> n \<and> n \<le> 57)"

definition py_isalnum :: "char \<Rightarrow> bool" where
  \<comment> \<open>letters, decimal digits, and the digits and fractions of Latin-1
      (feminine and masculine ordinal, superscripts 1 2 3, micro sign, 1/4 1/2 3/4)\<close>
  "py_isalnum c =
     (let n = ord c in
        (48 \<le> n \<and> n \<le> 57) \<or> (65 \<le> n \<and> n \<le> 90) \<or> (97 \<le> n \<and> n \<le> 122) \<or>
        n = 170 \<or> n = 178 \<or> n = 179 \<or> n = 181 \<or> n = 185 \<or> n = 186 \<or>
        (188 \<le> n \<and> n \<le> 190) \<or> (192 \<le> n \<and> n \<le> 214) \<or>
        (216 \<le> n \<and> n \<le> 246) \<or> (248 \<le> n \<and> n \<le> 255))"

definition py_isword :: "char \<Rightarrow> bool" where
  "py_isword c = (py_isalnum c \<or> c = CHR ''_'')"

definition py_tolower :: "char \<Rightarrow> char" where
  "py_tolower c =
     (let n = ord c in
        if (65 \<le> n \<and> n \<le> 90) \<or> (192 \<le> n \<and> n \<le> 222 \<and> n \<noteq> 215)
        then chr (n + 32) else c)"

definition py_toupper :: "char \<Rightarrow> nat list" where
  \<comment> \<open>the upper-case form is a list of code points: sharp s becomes SS, and the micro
      sign and y with diaeresis leave the range\<close>
  "py_toupper c =
     (let n = ord c in
        if (97 \<le> n \<and> n \<le> 122) \<or> (224 \<le> n \<and> n \<le> 254 \<and> n \<noteq> 247) then [n - 32]
        else if n = 223 then [83, 83]
        else if n = 181 then [924]
        else if n = 255 then [376]
        else [n])"

subsection \<open>String methods\<close>

definition lstrip :: "string \<Rightarrow> string" where
  "lstrip s = dropWhile py_isspace s"

definition rstrip :: "string \<Rightarrow> string" where
  "rstrip s = rev (dropWhile py_isspace (rev s))"

definition strip :: "string \<Rightarrow> string" where
  "strip s = rstrip (lstrip s)"

definition lower :: "string \<Rightarrow> string" where
  "lower s = map py_tolower s"

definition upper :: "string \<Rightarrow> nat list" where
  "upper s = concat (map py_toupper s)"

definition code_points :: "string \<Rightarrow> nat list" where
  "code_points s = map ord s"

definition startswith :: "'a list \<Rightarrow> 'a list \<Rightarrow> bool" where
  "startswith s p = (take (length p) s = p)"

subsection \<open>Regular expressions\<close>

text \<open>
  The fragment of \<^verbatim>\<open>re\<close> that the program uses: a pattern is a sequence of items; an
  item is an anchor or a one-character atom with a quantifier; an atom is a literal or a
  bracket set over literals and the classes \<^verbatim>\<open>\d \s \w\<close>, possibly negated. The matcher
  backtracks as \<^verbatim>\<open>re\<close> does: quantifiers are greedy and give characters back one at a
  time. The position is carried along for \<^verbatim>\<open>^\<close>; \<^verbatim>\<open>$\<close> holds at the end of the string
  and before a final line feed.
\<close>

datatype cls = Ch char | Digit | Space | Word

datatype atom = Lit char | Set bool "cls list"

datatype item = Bol | Eol | One atom | Opt atom | AtLeast nat atom

type_synonym regex = "item list"

fun lit_ok :: "bool \<Rightarrow> char \<Rightarrow> char \<Rightarrow> bool" where
  "lit_ok ic a c = (c = a \<or> (ic \<and> py_tolower c = py_tolower a))"

fun cls_ok :: "bool \<Rightarrow> cls \<Rightarrow> char \<Rightarrow> bool" where
  "cls_ok ic (Ch a) c = lit_ok ic a c"
| "cls_ok ic Digit c = py_isdecimal c"
| "cls_ok ic Space c = py_isspace c"
| "cls_ok ic Word c = py_isword c"

fun atom_ok :: "bool \<Rightarrow> atom \<Rightarrow> char \<Rightarrow> bool" where
  "atom_ok ic (Lit a) c = lit_ok ic a c"
| "atom_ok ic (Set negated cs) c = (list_ex (\<lambda>k. cls_ok ic k c) cs \<noteq> negated)"

fun try_down :: "(nat \<Rightarrow> 'a option) \<Rightarrow> nat \<Rightarrow> nat \<Rightarrow> 'a option" where
  "try_down f n 0 = (if 0 < n then None else f 0)"
| "try_down f n (Suc k) =
     (if Suc k < n then None
      else case f (Suc k) of Some r \<Rightarrow> Some r | None \<Rightarrow> try_down f n k)"

fun rx_run :: "bool \<Rightarrow> regex \<Rightarrow> nat \<Rightarrow> string \<Rightarrow> string option" where
  "rx_run ic [] pos s = Some s"
| "rx_run ic (Bol # r) pos s = (if pos = 0 then rx_run ic r pos s else None)"
| "rx_run ic (Eol # r) pos s =
     (if s = [] \<or> s = [CHR 0x0A] then rx_run ic r pos s else None)"
| "rx_run ic (One a # r) pos s =
     (case s of
        [] \<Rightarrow> None
      | c # cs \<Rightarrow> if atom_ok ic a c then rx_run ic r (pos + 1) cs else None)"
| "rx_run ic (Opt a # r) pos s =
     (case (case s of
              [] \<Rightarrow> None
            | c # cs \<Rightarrow> if atom_ok ic a c then rx_run ic r (pos + 1) cs else None) of
        Some rest \<Rightarrow> Some rest
      | None \<Rightarrow> rx_run ic r pos s)"
| "rx_run ic (AtLeast n a # r) pos s =
     try_down (\<lambda>j. rx_run ic r (pos + j) (drop j s)) n (length (takeWhile (atom_ok ic a) s))"

definition re_match :: "regex \<Rightarrow> string \<Rightarrow> bool \<Rightarrow> bool" where
  \<comment> \<open>\<^verbatim>\<open>re.match(pattern, string, flags)\<close> used as a truth value; the flag is
      \<^verbatim>\<open>re.IGNORECASE\<close>\<close>
  "re_match p s ic = (rx_run ic p 0 s \<noteq> None)"



subsection \<open>Content type detection and formatting\<close>

definition rx_http :: regex where
  \<comment> \<open>\<^verbatim>\<open>^https?://\<close>\<close>
  "rx_http = [Bol, One (Lit CHR ''h''), One (Lit CHR ''t''), One (Lit CHR ''t''),
              One (Lit CHR ''p''), Opt (Lit CHR ''s''), One (Lit CHR '':''),
              One (Lit CHR ''/''), One (Lit CHR ''/'')]"

definition rx_www :: regex where
  \<comment> \<open>\<^verbatim>\<open>^www\.\<close>\<close>
  "rx_www = [Bol, One (Lit CHR ''w''), One (Lit CHR ''w''), One (Lit CHR ''w''),
             One (Lit CHR ''.'')]"

definition rx_mailto :: regex where
  \<comment> \<open>\<^verbatim>\<open>^mailto:\<close>\<close>
  "rx_mailto = [Bol, One (Lit CHR ''m''), One (Lit CHR ''a''), One (Lit CHR ''i''),
                One (Lit CHR ''l''), One (Lit CHR ''t''), One (Lit CHR ''o''),
                One (Lit CHR '':'')]"

definition rx_email :: regex where
  \<comment> \<open>\<^verbatim>\<open>^[^@\s]+@[^@\s]+\.[^@\s]+$\<close>\<close>
  "rx_email = [Bol, AtLeast 1 (Set True [Ch CHR ''@'', Space]), One (Lit CHR ''@''),
               AtLeast 1 (Set True [Ch CHR ''@'', Space]), One (Lit CHR ''.''),
               AtLeast 1 (Set True [Ch CHR ''@'', Space]), Eol]"

definition rx_tel :: regex where
  \<comment> \<open>\<^verbatim>\<open>^tel:\<close>\<close>
  "rx_tel = [Bol, One (Lit CHR ''t''), One (Lit CHR ''e''), One (Lit CHR ''l''),
             One (Lit CHR '':'')]"

definition rx_phone :: regex where
  \<comment> \<open>\<^verbatim>\<open>^\+?[\d\s\-\(\)]{7,}$\<close>\<close>
  "rx_phone = [Bol, Opt (Lit CHR ''+''),
               AtLeast 7 (Set False [Digit, Space, Ch CHR ''-'', Ch CHR ''('', Ch CHR '')'']),
               Eol]"

definition detect_type :: "string \<Rightarrow> string" where
  "detect_type content =
     (let c = strip content in
      if startswith (upper c) (code_points ''WIFI:'') then ''wifi''
      else if re_match rx_http c True then ''url''
      else if re_match rx_www c True then ''url''
      else if re_match rx_mailto c True then ''email''
      else if re_match rx_email c False then ''email''
      else if re_match rx_tel c True then ''phone''
      else if re_match rx_phone c False then ''phone''
      else ''text'')"

definition format_content :: "string \<Rightarrow> string \<Rightarrow> string" where
  "format_content content qr_type =
     (let c = strip content in
      if qr_type = ''url'' then
        (if \<not> re_match rx_http c True then ''https://'' @ c else c)
      else if qr_type = ''email'' then
        (if \<not> startswith (lower c) ''mailto:'' then ''mailto:'' @ c else c)
      else if qr_type = ''phone'' then
        (if \<not> startswith (lower c) ''tel:'' then ''tel:'' @ c else c)
      else c)"


subsection \<open>File names\<close>

definition digit_char :: "nat \<Rightarrow> char" where
  "digit_char d = chr (48 + d)"

function str_nat :: "nat \<Rightarrow> string" where
  \<comment> \<open>\<^verbatim>\<open>str(n)\<close> for an integer that is not negative\<close>
  "str_nat n = (if n < 10 then [digit_char n] else str_nat (n div 10) @ [digit_char (n mod 10)])"
  by pat_completeness auto
termination
  by (relation "measure (\<lambda>n. n)") auto

declare str_nat.simps [simp del]







definition os_path_join :: "string \<Rightarrow> string \<Rightarrow> string" where
  \<comment> \<open>\<^verbatim>\<open>os.path.join(a, b)\<close> of \<^verbatim>\<open>posixpath\<close>\<close>
  "os_path_join a b =
     (if startswith b ''/'' then b
      else if a = [] \<or> last a = CHR ''/'' then a @ b
      else a @ ''/'' @ b)"

text \<open>
  The file system is seen through \<^verbatim>\<open>os.path.exists\<close>, a predicate on paths that does not
  change while \<open>resolve_paths\<close> runs. The loop has no bound, so it is a partial function:
  \<open>None\<close> is a run that never returns.
\<close>

partial_function (option) resolve_loop ::
  "(string \<Rightarrow> bool) \<Rightarrow> string \<Rightarrow> string \<Rightarrow> nat \<Rightarrow> string \<Rightarrow> string \<Rightarrow> (string \<times> string) option"
where
  "resolve_loop exists archive_dir base_name counter png_path pdf_path =
     (if exists png_path \<or> exists pdf_path
      then resolve_loop exists archive_dir base_name (counter + 1)
             (os_path_join archive_dir (base_name @ ''-'' @ str_nat counter @ ''.png''))
             (os_path_join archive_dir (base_name @ ''-'' @ str_nat counter @ ''.pdf''))
      else Some (png_path, pdf_path))"

definition resolve_paths :: "(string \<Rightarrow> bool) \<Rightarrow> string \<Rightarrow> string \<Rightarrow> (string \<times> string) option" where
  "resolve_paths exists archive_dir base_name =
     resolve_loop exists archive_dir base_name 2
       (os_path_join archive_dir (base_name @ ''.png''))
       (os_path_join archive_dir (base_name @ ''.pdf''))"

subsection \<open>PDF generation and its temporary file\<close>

text \<open>
  The world is the set of paths that exist, together with whatever state the libraries
  keep (the extension of the record). \<^verbatim>\<open>os.path.exists\<close> is membership, and is false for
  the empty path; \<^verbatim>\<open>os.unlink\<close> of an existing path removes it. Every call into the PDF
  library, the image object and \<^verbatim>\<open>tempfile\<close> is a parameter: it may change the world in
  any way and may raise. Layout numbers are left out of the calls; the paths and texts
  are kept.
\<close>

record world =
  files :: "string set"

datatype exn = Exn string

datatype 'r result = Raise exn | Ret 'r

datatype call =
    FPDF_new | Set_auto_page_break | Add_page | Set_font string string nat
  | Cell "nat list" | Ln nat | Image_save string | Tmp_close | Get_y | Pdf_image string
  | Multi_cell "nat list" | Output string

record 'w env =
  call :: "call \<Rightarrow> 'w \<Rightarrow> unit result \<times> 'w"
  named_temporary_file :: "string \<Rightarrow> 'w \<Rightarrow> string result \<times> 'w"

definition os_path_exists :: "'a world_scheme \<Rightarrow> string \<Rightarrow> bool" where
  "os_path_exists w p = (p \<noteq> [] \<and> p \<in> files w)"

definition os_unlink :: "string \<Rightarrow> 'a world_scheme \<Rightarrow> 'a world_scheme" where
  "os_unlink p w = w\<lparr>files := files w - {p}\<rparr>"

fun run :: "'w env \<Rightarrow> call list \<Rightarrow> 'w \<Rightarrow> unit result \<times> 'w" where
  \<comment> \<open>statements in sequence: the first that raises ends the run\<close>
  "run e [] w = (Ret (), w)"
| "run e (k # ks) w =
     (case call e k w of
        (Raise x, w') \<Rightarrow> (Raise x, w')
      | (Ret _, w') \<Rightarrow> run e ks w')"

definition pre_calls :: "string \<Rightarrow> string \<Rightarrow> call list" where
  \<comment> \<open>the statements before \<^verbatim>\<open>try\<close>\<close>
  "pre_calls label qr_type =
     [FPDF_new, Set_auto_page_break, Add_page,
      Set_font ''Helvetica'' ''B'' 24, Cell (code_points label), Ln 5,
      Set_font ''Helvetica'' '''' 12, Cell (code_points ''Type: '' @ upper qr_type), Ln 10]"

definition post_calls :: "string \<Rightarrow> string \<Rightarrow> string \<Rightarrow> call list" where
  \<comment> \<open>the statements after the \<^verbatim>\<open>try\<close> statement; \<open>today\<close> is the formatted date\<close>
  "post_calls content today output_path =
     [Set_font ''Helvetica'' '''' 11, Multi_cell (code_points (''Encoded: '' @ content)), Ln 5,
      Set_font ''Helvetica'' ''I'' 10, Cell (code_points (''Created: '' @ today)),
      Output output_path]"

definition try_block :: "'a world_scheme env \<Rightarrow> 'a world_scheme \<Rightarrow>
    string option \<times> unit result \<times> 'a world_scheme" where
  \<comment> \<open>the body of \<^verbatim>\<open>try\<close>; the first component is the value of \<^verbatim>\<open>tmp_path\<close> at its end.
      Leaving the \<^verbatim>\<open>with\<close> block closes the file, also when the body raised.\<close>
  "try_block e w =
     (case named_temporary_file e ''.png'' w of
        (Raise x, w1) \<Rightarrow> (None, Raise x, w1)
      | (Ret name, w1) \<Rightarrow>
          (case call e (Image_save name) w1 of
             (Raise x, w2) \<Rightarrow>
               (case call e Tmp_close w2 of
                  (Raise y, w3) \<Rightarrow> (Some name, Raise y, w3)
                | (Ret _, w3) \<Rightarrow> (Some name, Raise x, w3))
           | (Ret _, w2) \<Rightarrow>
               (case call e Tmp_close w2 of
                  (Raise y, w3) \<Rightarrow> (Some name, Raise y, w3)
                | (Ret _, w3) \<Rightarrow>
                    (case run e [Get_y, Pdf_image name, Ln 110] w3 of
                       (r, w4) \<Rightarrow> (Some name, r, w4)))))"

definition finally_block :: "string option \<Rightarrow> 'a world_scheme \<Rightarrow> 'a world_scheme" where
  \<comment> \<open>\<^verbatim>\<open>if tmp_path and os.path.exists(tmp_path): os.unlink(tmp_path)\<close>\<close>
  "finally_block tmp_path w =
     (case tmp_path of
        None \<Rightarrow> w
      | Some p \<Rightarrow> if p \<noteq> [] \<and> os_path_exists w p then os_unlink p w else w)"

definition create_pdf :: "'a world_scheme env \<Rightarrow> string \<Rightarrow> string \<Rightarrow> string \<Rightarrow> string \<Rightarrow>
    string \<Rightarrow> 'a world_scheme \<Rightarrow> string option \<times> unit result \<times> 'a world_scheme" where
  \<comment> \<open>returns the last value of \<^verbatim>\<open>tmp_path\<close>, how the function ended, and the world then\<close>
  "create_pdf e label content qr_type output_path today w =
     (case run e (pre_calls label qr_type) w of
        (Raise x, w1) \<Rightarrow> (None, Raise x, w1)
      | (Ret _, w1) \<Rightarrow>
          (case try_block e w1 of
             (tmp_path, r, w2) \<Rightarrow>
               (let w3 = finally_block tmp_path w2 in
                case r of
                  Raise x \<Rightarrow> (tmp_path, Raise x, w3)
                | Ret _ \<Rightarrow>
                    (case run e (post_calls content today output_path) w3 of
                       (r', w4) \<Rightarrow> (tmp_path, r', w4)))))"

subsection \<open>Predicates used to state the properties\<close>

definition trimmed :: "string \<Rightarrow> bool" where
  \<comment> \<open>no leading and no trailing whitespace\<close>
  "trimmed s = (s = [] \<or> (\<not> py_isspace (hd s) \<and> \<not> py_isspace (last s)))"

definition ci_startswith :: "string \<Rightarrow> string \<Rightarrow> bool" where
  \<comment> \<open>\<open>s\<close> starts with \<open>p\<close>, letter case ignored\<close>
  "ci_startswith s p = startswith (lower s) (lower p)"

definition email_char :: "char \<Rightarrow> bool" where
  "email_char c = (c \<noteq> CHR ''@'' \<and> \<not> py_isspace c)"

definition email_shape :: "string \<Rightarrow> bool" where
  \<comment> \<open>\<^verbatim>\<open>local@domain.tld\<close>: a non-empty part before the only \<^verbatim>\<open>@\<close>, after it a dot that
      is neither its first nor its last character, and no whitespace anywhere\<close>
  "email_shape s =
     (let local = takeWhile (\<lambda>c. c \<noteq> CHR ''@'') s;
          rest = dropWhile (\<lambda>c. c \<noteq> CHR ''@'') s
      in local \<noteq> [] \<and> rest \<noteq> [] \<and> CHR ''@'' \<notin> set (tl rest) \<and>
         CHR ''.'' \<in> set (butlast (tl (tl rest))) \<and> \<not> list_ex py_isspace s)"

definition phone_char :: "char \<Rightarrow> bool" where
  \<comment> \<open>a digit, a whitespace character, a hyphen or a parenthesis\<close>
  "phone_char c =
     (py_isdecimal c \<or> py_isspace c \<or> c = CHR ''-'' \<or> c = CHR ''('' \<or> c = CHR '')'')"

definition phone_shape :: "string \<Rightarrow> bool" where
  \<comment> \<open>an optional leading \<^verbatim>\<open>+\<close>, then seven or more phone characters\<close>
  "phone_shape s =
     (let d = (case s of [] \<Rightarrow> [] | c # cs \<Rightarrow> if c = CHR ''+'' then cs else s)
      in 7 \<le> length d \<and> list_all phone_char d)"

definition classify :: "string \<Rightarrow> string" where
  \<comment> \<open>the classifier as the specification words it: the checks in their order, the
      first that holds decides\<close>
  "classify c =
     (if ci_startswith c ''WIFI:'' then ''wifi''
      else if ci_startswith c ''http://'' \<or> ci_startswith c ''https://'' \<or>
              ci_startswith c ''www.'' then ''url''
      else if ci_startswith c ''mailto:'' then ''email''
      else if email_shape c then ''email''
      else if ci_startswith c ''tel:'' then ''phone''
      else if phone_shape c then ''phone''
      else ''text'')"

definition accepts :: "bool \<Rightarrow> regex \<Rightarrow> nat \<Rightarrow> string \<Rightarrow> bool" where
  \<comment> \<open>the matcher finds a match of the pattern at the head of the string\<close>
  "accepts ic r pos s = (rx_run ic r pos s \<noteq> None)"






definition stem :: "string \<Rightarrow> nat \<Rightarrow> string" where
  \<comment> \<open>the candidate stems \<open>base\<close>, \<open>base-2\<close>, \<open>base-3\<close>, ... numbered from 0\<close>
  "stem base_name k = (if k = 0 then base_name else base_name @ ''-'' @ str_nat (k + 1))"

definition candidate :: "string \<Rightarrow> string \<Rightarrow> nat \<Rightarrow> string \<times> string" where
  "candidate archive_dir base_name k =
     (os_path_join archive_dir (stem base_name k @ ''.png''),
      os_path_join archive_dir (stem base_name k @ ''.pdf''))"

text \<open>Two environments for running \<open>create_pdf\<close>: in the second, embedding the image fails.\<close>

definition demo_env :: "world env" where
  "demo_env =
     \<lparr>call = (\<lambda>k w. case k of
                 Image_save p \<Rightarrow> (Ret (), w\<lparr>files := insert p (files w)\<rparr>)
               | Output p \<Rightarrow> (Ret (), w\<lparr>files := insert p (files w)\<rparr>)
               | _ \<Rightarrow> (Ret (), w)),
      named_temporary_file =
        (\<lambda>suffix w. (Ret (''/tmp/tmpk3v9x1qz'' @ suffix),
                      w\<lparr>files := insert (''/tmp/tmpk3v9x1qz'' @ suffix) (files w)\<rparr>))\<rparr>"

definition failing_env :: "world env" where
  "failing_env = demo_env\<lparr>call := (\<lambda>k w. case k of
                 Pdf_image p \<Rightarrow> (Raise (Exn ''image''), w)
               | _ \<Rightarrow> call demo_env k w)\<rparr>"

definition taken :: "(string \<Rightarrow> bool) \<Rightarrow> string \<Rightarrow> string \<Rightarrow> nat \<Rightarrow> bool" where
  \<comment> \<open>one of the two paths of candidate \<open>k\<close> exists\<close>
  "taken exists d b k = (exists (fst (candidate d b k)) \<or> exists (snd (candidate d b k)))"

section \<open>Properties\<close>

subsection \<open>Stripping\<close>

lemma lstrip_fix: "s = [] \<or> \<not> py_isspace (hd s) \<Longrightarrow> lstrip s = s"
  by (cases s) (auto simp: lstrip_def)

lemma rstrip_fix: "s = [] \<or> \<not> py_isspace (last s) \<Longrightarrow> rstrip s = s"
proof (cases "s = []")
  case True
  then show ?thesis by (simp add: rstrip_def)
next
  case False
  assume "s = [] \<or> \<not> py_isspace (last s)"
  with False have "\<not> py_isspace (hd (rev s))" by (simp add: hd_rev)
  with False have "dropWhile py_isspace (rev s) = rev s" by (cases "rev s") auto
  then show ?thesis by (simp add: rstrip_def)
qed

lemma trimmed_strip_id: "trimmed s \<Longrightarrow> strip s = s"
  unfolding trimmed_def strip_def
  by (auto simp: lstrip_fix rstrip_fix)

lemma rstrip_last: "rstrip s \<noteq> [] \<Longrightarrow> \<not> py_isspace (last (rstrip s))"
proof -
  assume "rstrip s \<noteq> []"
  then have ne: "dropWhile py_isspace (rev s) \<noteq> []" by (simp add: rstrip_def)
  have "last (rstrip s) = hd (dropWhile py_isspace (rev s))"
    using ne by (simp add: rstrip_def last_rev)
  with ne show ?thesis by (simp add: hd_dropWhile)
qed

lemma rstrip_decomp: "s = rstrip s @ rev (takeWhile py_isspace (rev s))"
proof -
  have "rev (takeWhile py_isspace (rev s) @ dropWhile py_isspace (rev s)) = s"
    by (simp only: takeWhile_dropWhile_id rev_rev_ident)
  then show ?thesis
    by (simp only: rev_append rstrip_def)
qed

lemma rstrip_hd: "rstrip s \<noteq> [] \<Longrightarrow> hd (rstrip s) = hd s"
proof -
  assume ne: "rstrip s \<noteq> []"
  have "hd s = hd (rstrip s @ rev (takeWhile py_isspace (rev s)))"
    using rstrip_decomp [of s] by simp
  with ne show ?thesis by simp
qed

lemma lstrip_hd: "lstrip s \<noteq> [] \<Longrightarrow> \<not> py_isspace (hd (lstrip s))"
  by (simp add: lstrip_def hd_dropWhile)

lemma strip_trimmed: "trimmed (strip s)"
proof (cases "strip s = []")
  case True
  then show ?thesis by (simp add: trimmed_def)
next
  case False
  then have ne: "rstrip (lstrip s) \<noteq> []" by (simp add: strip_def)
  then have "lstrip s \<noteq> []" by (auto simp: rstrip_def)
  then have "\<not> py_isspace (hd (lstrip s))" by (rule lstrip_hd)
  with ne have "\<not> py_isspace (hd (strip s))" by (simp add: strip_def rstrip_hd)
  moreover from ne have "\<not> py_isspace (last (strip s))" by (simp add: strip_def rstrip_last)
  ultimately show ?thesis by (simp add: trimmed_def)
qed

lemma strip_idem: "strip (strip s) = strip s"
  by (rule trimmed_strip_id) (rule strip_trimmed)

lemma strip_all_space:
  assumes "list_all py_isspace s"
  shows "strip s = []"
proof -
  have d: "dropWhile py_isspace s = []" using assms by (induction s) auto
  show ?thesis unfolding strip_def lstrip_def rstrip_def d by simp
qed

lemma trimmed_prefixed:
  assumes "p \<noteq> []" and "\<not> py_isspace (hd p)" and "\<not> py_isspace (last p)" and "trimmed c"
  shows "trimmed (p @ c)"
  using assms by (cases "c = []") (auto simp: trimmed_def)

lemma detect_type_empty: "detect_type [] = ''text''"
  by code_simp

subsection \<open>The phone example\<close>

text \<open>
  C8. The content \<^verbatim>\<open>+1-555-123-4567\<close> is detected as a phone number, and formatting it
  as a phone number gives \<^verbatim>\<open>tel:+1-555-123-4567\<close>.
\<close>

theorem phone_example:
  "detect_type ''+1-555-123-4567'' = ''phone'' \<and>
   format_content ''+1-555-123-4567'' ''phone'' = ''tel:+1-555-123-4567''"
  by code_simp

subsection \<open>Formatting strips first\<close>

lemma format_content_cases:
  "format_content content qr_type = strip content \<or>
   format_content content qr_type = ''https://'' @ strip content \<or>
   format_content content qr_type = ''mailto:'' @ strip content \<or>
   format_content content qr_type = ''tel:'' @ strip content"
  by (simp add: format_content_def Let_def)

lemma format_content_trimmed: "trimmed (format_content content qr_type)"
proof -
  have t: "trimmed (strip content)" by (rule strip_trimmed)
  have "trimmed (''https://'' @ strip content)"
    by (rule trimmed_prefixed [OF _ _ _ t]) (simp_all add: py_isspace_def ord_def)
  moreover have "trimmed (''mailto:'' @ strip content)"
    by (rule trimmed_prefixed [OF _ _ _ t]) (simp_all add: py_isspace_def ord_def)
  moreover have "trimmed (''tel:'' @ strip content)"
    by (rule trimmed_prefixed [OF _ _ _ t]) (simp_all add: py_isspace_def ord_def)
  ultimately show ?thesis
    using t format_content_cases [of content qr_type] by metis
qed

text \<open>
  C9. For every content and every type, \<open>format_content\<close> works on the stripped content:
  its result is the stripped content, possibly behind one of the three prefixes, and is
  the same as for the stripped content; for every type other than url, email and phone
  (so for wifi, text and other) it is the stripped content; and the result has no leading
  and no trailing whitespace.
\<close>

theorem format_content_strips:
  "format_content content qr_type = format_content (strip content) qr_type \<and>
   (format_content content qr_type = strip content \<or>
    format_content content qr_type = ''https://'' @ strip content \<or>
    format_content content qr_type = ''mailto:'' @ strip content \<or>
    format_content content qr_type = ''tel:'' @ strip content) \<and>
   (qr_type \<notin> {''url'', ''email'', ''phone''} \<longrightarrow>
      format_content content qr_type = strip content) \<and>
   format_content content ''wifi'' = strip content \<and>
   format_content content ''text'' = strip content \<and>
   format_content content ''other'' = strip content \<and>
   trimmed (format_content content qr_type)"
proof -
  have "format_content content qr_type = format_content (strip content) qr_type"
    by (simp add: format_content_def strip_idem)
  moreover have "qr_type \<notin> {''url'', ''email'', ''phone''} \<longrightarrow>
      format_content content qr_type = strip content"
    by (simp add: format_content_def)
  moreover have "format_content content ''wifi'' = strip content"
    by (simp add: format_content_def)
  moreover have "format_content content ''text'' = strip content"
    by (simp add: format_content_def)
  moreover have "format_content content ''other'' = strip content"
    by (simp add: format_content_def)
  ultimately show ?thesis
    using format_content_cases [of content qr_type] format_content_trimmed [of content qr_type]
    by blast
qed

theorem format_content_strips_witness:
  "format_content ''  hello world  '' ''note'' = ''hello world'' \<and>
   trimmed (format_content ''  hello world  '' ''note'')"
proof -
  have s: "strip ''  hello world  '' = ''hello world''" by code_simp
  have n: "''note'' \<notin> {''url'', ''email'', ''phone''}" by simp
  have "format_content ''  hello world  '' ''note'' = strip ''  hello world  ''"
    using format_content_strips [of "''  hello world  ''" "''note''"] n by blast
  moreover have "trimmed (format_content ''  hello world  '' ''note'')"
    using format_content_strips [of "''  hello world  ''" "''note''"] by blast
  ultimately show ?thesis using s by simp
qed

subsection \<open>Detection ignores surrounding whitespace\<close>

text \<open>
  C10. For every string \<open>c\<close>, \<open>detect_type c = detect_type (strip c)\<close>; an empty or
  whitespace-only string is classified as text.
\<close>

theorem detect_type_strip_invariant:
  "detect_type c = detect_type (strip c) \<and>
   (list_all py_isspace c \<longrightarrow> detect_type c = ''text'')"
proof -
  have inv: "detect_type c = detect_type (strip c)"
    by (simp add: detect_type_def strip_idem)
  have "list_all py_isspace c \<longrightarrow> detect_type c = ''text''"
  proof
    assume "list_all py_isspace c"
    then have "strip c = []" by (rule strip_all_space)
    with inv show "detect_type c = ''text''" by (simp add: detect_type_empty)
  qed
  with inv show ?thesis by simp
qed

theorem detect_type_strip_invariant_witness:
  "list_all py_isspace [CHR '' '', CHR 0x09, CHR 0x0A] \<and>
   detect_type [CHR '' '', CHR 0x09, CHR 0x0A] = ''text''"
proof -
  have h: "list_all py_isspace [CHR '' '', CHR 0x09, CHR 0x0A]"
    by (simp add: py_isspace_def ord_def)
  have "detect_type [CHR '' '', CHR 0x09, CHR 0x0A] = ''text''"
    using detect_type_strip_invariant [of "[CHR '' '', CHR 0x09, CHR 0x0A]"] h by blast
  with h show ?thesis by simp
qed

subsection \<open>Characters and case\<close>

lemma ord_less_256: "ord x < 256"
  by (simp add: ord_def)

lemma ord_chr: "n < 256 \<Longrightarrow> ord (chr n) = n"
  by (simp add: ord_def chr_def)

lemma ord_inj: "ord x = ord y \<longleftrightarrow> x = y"
  by (simp add: ord_def)

lemma ord_tolower:
  "ord (py_tolower x) =
     (if (65 \<le> ord x \<and> ord x \<le> 90) \<or> (192 \<le> ord x \<and> ord x \<le> 222 \<and> ord x \<noteq> 215)
      then ord x + 32 else ord x)"
  using ord_less_256 [of x] by (auto simp: py_tolower_def Let_def ord_chr)

lemma toupper_single:
  assumes "hd (py_toupper x) = v" and "v < 97" and "v \<noteq> 83"
  shows "py_toupper x = [v]"
  using assms by (cases "97 \<le> ord x \<and> ord x \<le> 122 \<or> 224 \<le> ord x \<and> ord x \<le> 254 \<and> ord x \<noteq> 247")
    (simp_all add: py_toupper_def Let_def split: if_splits)

lemma toupper_letter:
  assumes "65 \<le> v" and "v \<le> 90"
  shows "py_toupper x = [v] \<longleftrightarrow> ord x = v \<or> ord x = v + 32"
  using assms by (simp add: py_toupper_def Let_def split: if_splits) arith

lemma tolower_letter:
  assumes "65 \<le> v" and "v \<le> 90"
  shows "ord (py_tolower x) = v + 32 \<longleftrightarrow> ord x = v \<or> ord x = v + 32"
  using assms by (simp add: ord_tolower split: if_splits) arith

lemma upper_char:
  assumes "a \<in> set ''WIFI:''"
  shows "(hd (py_toupper x) = ord a \<longleftrightarrow> py_tolower x = py_tolower a) \<and>
     (hd (py_toupper x) = ord a \<longrightarrow> py_toupper x = [ord a])"
proof -
  have s: "hd (py_toupper x) = ord a \<longrightarrow> py_toupper x = [ord a]"
    using assms toupper_single [of x "ord a"] by (auto simp: ord_def)
  have e: "py_tolower x = py_tolower a \<longleftrightarrow> ord (py_tolower x) = ord (py_tolower a)"
    by (simp add: ord_inj)
  consider "a = CHR ''W''" | "a = CHR ''I''" | "a = CHR ''F''" | "a = CHR '':''"
    using assms by auto
  then have "py_toupper x = [ord a] \<longleftrightarrow> py_tolower x = py_tolower a"
  proof cases
    case 1
    have "ord a = 87" "ord (py_tolower a) = 87 + 32" by (simp_all add: 1 ord_tolower) (simp_all add: ord_def)
    then show ?thesis unfolding e using toupper_letter [of 87 x] tolower_letter [of 87 x] by simp 
  next
    case 2
    have "ord a = 73" "ord (py_tolower a) = 73 + 32" by (simp_all add: 2 ord_tolower) (simp_all add: ord_def)
    then show ?thesis unfolding e using toupper_letter [of 73 x] tolower_letter [of 73 x] by simp 
  next
    case 3
    have "ord a = 70" "ord (py_tolower a) = 70 + 32" by (simp_all add: 3 ord_tolower) (simp_all add: ord_def)
    then show ?thesis unfolding e using toupper_letter [of 70 x] tolower_letter [of 70 x] by simp 
  next
    case 4
    have o: "ord a = 58" "ord (py_tolower a) = 58" by (simp_all add: 4 ord_tolower) (simp_all add: ord_def)
    have "py_toupper x = [58] \<longleftrightarrow> ord x = 58"
      by (simp add: py_toupper_def Let_def split: if_splits) arith
    moreover have "ord (py_tolower x) = 58 \<longleftrightarrow> ord x = 58"
      by (simp add: ord_tolower split: if_splits)
    ultimately show ?thesis unfolding e o by simp
  qed
  with s show ?thesis by auto
qed

lemma ci_startswith_Nil: "ci_startswith s []"
  by (simp add: ci_startswith_def startswith_def lower_def)

lemma ci_startswith_Cons:
  "ci_startswith s (a # p) \<longleftrightarrow>
     (\<exists>c cs. s = c # cs \<and> py_tolower c = py_tolower a \<and> ci_startswith cs p)"
  by (cases s) (auto simp: ci_startswith_def startswith_def lower_def)

lemma upper_startswith:
  assumes "set p \<subseteq> set ''WIFI:''"
  shows "startswith (upper s) (code_points p) \<longleftrightarrow> ci_startswith s p"
  using assms
proof (induction p arbitrary: s)
  case Nil
  show ?case by (simp add: startswith_def code_points_def ci_startswith_Nil)
next
  case (Cons a p)
  then have a: "a \<in> set ''WIFI:''" and p: "set p \<subseteq> set ''WIFI:''" by auto
  show ?case
  proof (cases s)
    case Nil
    then show ?thesis
      by (simp add: startswith_def upper_def code_points_def ci_startswith_Cons)
  next
    case (Cons x s')
    note uc = upper_char [OF a, of x]
    show ?thesis
    proof (cases "hd (py_toupper x) = ord a")
      case True
      with uc have u: "py_toupper x = [ord a]" and l: "py_tolower x = py_tolower a" by auto
      have "startswith (upper s) (code_points (a # p)) \<longleftrightarrow> startswith (upper s') (code_points p)"
        by (simp add: Cons startswith_def upper_def code_points_def u)
      with Cons.IH [OF p, of s'] l show ?thesis
        by (simp add: Cons ci_startswith_Cons)
    next
      case False
      with uc have l: "py_tolower x \<noteq> py_tolower a" by auto
      obtain u us where us: "py_toupper x = u # us"
        by (cases "py_toupper x") (auto simp: py_toupper_def Let_def split: if_splits)
      with False have "u \<noteq> ord a" by simp
      then have "\<not> startswith (upper s) (code_points (a # p))"
        by (simp add: Cons startswith_def upper_def code_points_def us)
      with l show ?thesis by (simp add: Cons ci_startswith_Cons)
    qed
  qed
qed

lemma try_down_iff: "try_down f n k \<noteq> None \<longleftrightarrow> (\<exists>j. n \<le> j \<and> j \<le> k \<and> f j \<noteq> None)"
proof (induction k)
  case 0
  then show ?case by auto
next
  case (Suc k)
  show ?case
  proof (cases "Suc k < n")
    case True
    then show ?thesis by auto
  next
    case False
    show ?thesis
    proof (cases "f (Suc k)")
      case None
      with False Suc show ?thesis by (auto simp: le_Suc_eq)
    next
      case (Some r)
      with False have "n \<le> Suc k \<and> Suc k \<le> Suc k \<and> f (Suc k) \<noteq> None" by simp
      then have "\<exists>j. n \<le> j \<and> j \<le> Suc k \<and> f j \<noteq> None" by blast
      with False Some show ?thesis by simp
    qed
  qed
qed

lemma re_match_accepts: "re_match p s ic = accepts ic p 0 s"
  by (simp add: re_match_def accepts_def)

lemma accepts_Nil: "accepts ic [] pos s"
  by (simp add: accepts_def)

lemma accepts_Bol: "accepts ic (Bol # r) pos s \<longleftrightarrow> pos = 0 \<and> accepts ic r pos s"
  by (simp add: accepts_def)

lemma accepts_Eol: "accepts ic (Eol # r) pos s \<longleftrightarrow>
    (s = [] \<or> s = [CHR 0x0A]) \<and> accepts ic r pos s"
  by (simp add: accepts_def)

lemma accepts_One: "accepts ic (One a # r) pos s \<longleftrightarrow>
  (\<exists>c cs. s = c # cs \<and> atom_ok ic a c \<and> accepts ic r (pos + 1) cs)"
  unfolding accepts_def by (cases s) auto

lemma accepts_Opt: "accepts ic (Opt a # r) pos s \<longleftrightarrow>
  (\<exists>c cs. s = c # cs \<and> atom_ok ic a c \<and> accepts ic r (pos + 1) cs) \<or> accepts ic r pos s"
  unfolding accepts_def by (cases s) (auto split: option.splits)

lemma take_le_takeWhile:
  assumes "j \<le> length (takeWhile P s)"
  shows "take j s = take j (takeWhile P s)"
proof -
  have "take j s = take j (takeWhile P s @ dropWhile P s)" by simp
  also have "\<dots> = take j (takeWhile P s)" using assms by (simp only: take_append) simp
  finally show ?thesis .
qed

lemma accepts_AtLeast: "accepts ic (AtLeast n a # r) pos s \<longleftrightarrow>
  (\<exists>u v. s = u @ v \<and> n \<le> length u \<and> (\<forall>c\<in>set u. atom_ok ic a c) \<and>
     accepts ic r (pos + length u) v)" (is "?L \<longleftrightarrow> ?R")
proof
  assume ?L
  then have "\<exists>j. n \<le> j \<and> j \<le> length (takeWhile (atom_ok ic a) s) \<and>
      rx_run ic r (pos + j) (drop j s) \<noteq> None"
    unfolding accepts_def rx_run.simps try_down_iff .
  then obtain j where j: "n \<le> j" "j \<le> length (takeWhile (atom_ok ic a) s)"
      "accepts ic r (pos + j) (drop j s)"
    unfolding accepts_def by blast
  have t: "take j s = take j (takeWhile (atom_ok ic a) s)"
    using j(2) by (rule take_le_takeWhile)
  have "\<forall>c\<in>set (take j s). atom_ok ic a c"
    unfolding t by (metis in_set_takeD set_takeWhileD)
  moreover have "length (take j s) = j"
    using j(2) length_takeWhile_le [of "atom_ok ic a" s] by simp
  moreover have "s = take j s @ drop j s" by simp
  ultimately show ?R using j(1,3) by metis
next
  assume ?R
  then obtain u v where uv: "s = u @ v" "n \<le> length u" "\<forall>c\<in>set u. atom_ok ic a c"
      "accepts ic r (pos + length u) v" by blast
  have "takeWhile (atom_ok ic a) s = u @ takeWhile (atom_ok ic a) v"
    using uv(1,3) by (simp add: takeWhile_append2)
  then have "length u \<le> length (takeWhile (atom_ok ic a) s)" by simp
  moreover have "drop (length u) s = v" using uv(1) by simp
  ultimately have "\<exists>j. n \<le> j \<and> j \<le> length (takeWhile (atom_ok ic a) s) \<and>
      rx_run ic r (pos + j) (drop j s) \<noteq> None"
    using uv(2,4) unfolding accepts_def by blast
  then show ?L unfolding accepts_def rx_run.simps try_down_iff .
qed

lemma lit_ok_ic: "lit_ok True a c \<longleftrightarrow> py_tolower c = py_tolower a"
  by auto

lemma ci_startswith_append:
  "ci_startswith s (p @ q) \<longleftrightarrow> ci_startswith s p \<and> ci_startswith (drop (length p) s) q"
proof (induction p arbitrary: s)
  case Nil
  show ?case by (simp add: ci_startswith_Nil)
next
  case (Cons a p)
  show ?case by (cases s) (auto simp: ci_startswith_Cons Cons.IH)
qed

lemma accepts_lits:
  "accepts True (map (\<lambda>a. One (Lit a)) p @ r) pos s \<longleftrightarrow>
     ci_startswith s p \<and> accepts True r (pos + length p) (drop (length p) s)"
proof (induction p arbitrary: pos s)
  case Nil
  show ?case by (simp add: ci_startswith_Nil)
next
  case (Cons a p)
  show ?case
    by (cases s) (auto simp: ci_startswith_Cons Cons.IH accepts_One)
qed

lemma re_match_http:
  "re_match rx_http s True \<longleftrightarrow> ci_startswith s ''http://'' \<or> ci_startswith s ''https://''"
proof -
  define d where "d = drop (length ''http'') s"
  have p: "rx_http = Bol # map (\<lambda>a. One (Lit a)) ''http'' @
      (Opt (Lit CHR ''s'') # map (\<lambda>a. One (Lit a)) ''://'' @ [])"
    by (simp add: rx_http_def)
  have a: "ci_startswith s ''http://'' \<longleftrightarrow> ci_startswith s ''http'' \<and> ci_startswith d ''://''"
    unfolding d_def using ci_startswith_append [of s "''http''" "''://''"] by simp
  have b: "ci_startswith s ''https://'' \<longleftrightarrow> ci_startswith s ''http'' \<and> ci_startswith d ''s://''"
    unfolding d_def using ci_startswith_append [of s "''http''" "''s://''"] by simp
  have c: "ci_startswith d ''s://'' \<longleftrightarrow>
      (\<exists>c cs. d = c # cs \<and> py_tolower c = py_tolower CHR ''s'' \<and> ci_startswith cs ''://'')"
    by (rule ci_startswith_Cons)
  have "re_match rx_http s True \<longleftrightarrow>
      ci_startswith s ''http'' \<and>
      ((\<exists>c cs. d = c # cs \<and> py_tolower c = py_tolower CHR ''s'' \<and> ci_startswith cs ''://'')
        \<or> ci_startswith d ''://'')"
    unfolding re_match_accepts p accepts_Bol accepts_lits accepts_Opt
      atom_ok.simps lit_ok_ic d_def [symmetric]
    by (simp add: accepts_Nil)
  then show ?thesis unfolding a b c by blast
qed

lemma re_match_lits:
  "re_match (Bol # map (\<lambda>a. One (Lit a)) p) s True \<longleftrightarrow> ci_startswith s p"
  unfolding re_match_accepts accepts_Bol
  using accepts_lits [of p "[]" 0 s] by (simp add: accepts_Nil)

lemma re_match_www: "re_match rx_www s True \<longleftrightarrow> ci_startswith s ''www.''"
  using re_match_lits [of "''www.''" s] by (simp add: rx_www_def)

lemma re_match_mailto: "re_match rx_mailto s True \<longleftrightarrow> ci_startswith s ''mailto:''"
  using re_match_lits [of "''mailto:''" s] by (simp add: rx_mailto_def)

lemma re_match_tel: "re_match rx_tel s True \<longleftrightarrow> ci_startswith s ''tel:''"
  using re_match_lits [of "''tel:''" s] by (simp add: rx_tel_def)

lemma accepts_AtLeast_One:
  "accepts ic (AtLeast n a # One b # r) pos s \<longleftrightarrow>
     (\<exists>u c v. s = u @ c # v \<and> n \<le> length u \<and> (\<forall>x\<in>set u. atom_ok ic a x) \<and>
        atom_ok ic b c \<and> accepts ic r (pos + length u + 1) v)"
  unfolding accepts_AtLeast accepts_One by blast

lemma accepts_AtLeast_Eol:
  "accepts ic [AtLeast n a, Eol] pos s \<longleftrightarrow>
     (\<exists>u z. s = u @ z \<and> n \<le> length u \<and> (\<forall>x\<in>set u. atom_ok ic a x) \<and>
        (z = [] \<or> z = [CHR 0x0A]))"
  unfolding accepts_AtLeast accepts_Eol by (simp add: accepts_Nil)

lemma ok_email_char: "atom_ok False (Set True [Ch CHR ''@'', Space]) c = email_char c"
  by (auto simp: email_char_def)

lemma ok_lit: "atom_ok False (Lit a) c \<longleftrightarrow> c = a"
  by simp

lemma re_match_email_split:
  "re_match rx_email s False \<longleftrightarrow>
     (\<exists>l d t z. s = l @ CHR ''@'' # d @ CHR ''.'' # t @ z \<and> l \<noteq> [] \<and> d \<noteq> [] \<and> t \<noteq> [] \<and>
        list_all email_char l \<and> list_all email_char d \<and> list_all email_char t \<and>
        (z = [] \<or> z = [CHR 0x0A]))"
  (is "?L \<longleftrightarrow> ?R")
proof
  assume ?L
  then have "accepts False (AtLeast 1 (Set True [Ch CHR ''@'', Space]) # One (Lit CHR ''@'') #
      AtLeast 1 (Set True [Ch CHR ''@'', Space]) # One (Lit CHR ''.'') #
      [AtLeast 1 (Set True [Ch CHR ''@'', Space]), Eol]) 0 s"
    by (simp only: re_match_accepts rx_email_def accepts_Bol)
  then obtain l c v where 1: "s = l @ c # v" "1 \<le> length l" "\<forall>x\<in>set l. email_char x" "c = CHR ''@''"
    and "accepts False (AtLeast 1 (Set True [Ch CHR ''@'', Space]) # One (Lit CHR ''.'') #
      [AtLeast 1 (Set True [Ch CHR ''@'', Space]), Eol]) (0 + length l + 1) v"
    unfolding accepts_AtLeast_One [of _ _ _ "Lit CHR ''@''"] ok_email_char ok_lit by blast
  then obtain d c' w where 2: "v = d @ c' # w" "1 \<le> length d" "\<forall>x\<in>set d. email_char x" "c' = CHR ''.''"
    and "accepts False [AtLeast 1 (Set True [Ch CHR ''@'', Space]), Eol] (0 + length l + 1 + length d + 1) w"
    unfolding accepts_AtLeast_One ok_email_char ok_lit by blast
  then obtain t z where 3: "w = t @ z" "1 \<le> length t" "\<forall>x\<in>set t. email_char x" "z = [] \<or> z = [CHR 0x0A]"
    unfolding accepts_AtLeast_Eol ok_email_char by blast
  have "s = l @ CHR ''@'' # d @ CHR ''.'' # t @ z" using 1(1,4) 2(1,4) 3(1) by simp
  moreover have "l \<noteq> []" "d \<noteq> []" "t \<noteq> []" using 1(2) 2(2) 3(2) by auto
  moreover have "list_all email_char l" "list_all email_char d" "list_all email_char t"
    using 1(3) 2(3) 3(3) by (simp_all add: list_all_iff)
  ultimately show ?R using 3(4) by blast
next
  assume ?R
  then obtain l d t z where r: "s = l @ CHR ''@'' # d @ CHR ''.'' # t @ z"
      "l \<noteq> []" "d \<noteq> []" "t \<noteq> []"
      "list_all email_char l" "list_all email_char d" "list_all email_char t"
      "z = [] \<or> z = [CHR 0x0A]"
    by blast
  have 3: "accepts False [AtLeast 1 (Set True [Ch CHR ''@'', Space]), Eol] p (t @ z)" for p
    unfolding accepts_AtLeast_Eol ok_email_char
    using r(4,7,8) by (intro exI [of _ t] exI [of _ z]) (simp add: list_all_iff Suc_le_eq)
  have 2: "accepts False (AtLeast 1 (Set True [Ch CHR ''@'', Space]) # One (Lit CHR ''.'') #
      [AtLeast 1 (Set True [Ch CHR ''@'', Space]), Eol]) p (d @ CHR ''.'' # t @ z)" for p
    unfolding accepts_AtLeast_One ok_email_char ok_lit
    using r(3,6) 3
    by (intro exI [of _ d] exI [of _ "CHR ''.''"] exI [of _ "t @ z"]) (simp add: list_all_iff Suc_le_eq)
  have 1: "accepts False (AtLeast 1 (Set True [Ch CHR ''@'', Space]) # One (Lit CHR ''@'') #
      AtLeast 1 (Set True [Ch CHR ''@'', Space]) # One (Lit CHR ''.'') #
      [AtLeast 1 (Set True [Ch CHR ''@'', Space]), Eol]) 0 s"
    unfolding accepts_AtLeast_One [of _ _ _ "Lit CHR ''@''"] ok_email_char ok_lit
    using r(1,2,5) 2
    by (intro exI [of _ l] exI [of _ "CHR ''@''"] exI [of _ "d @ CHR ''.'' # t @ z"])
      (simp add: list_all_iff Suc_le_eq)
  then show ?L
    by (simp only: re_match_accepts rx_email_def accepts_Bol)
qed

lemma email_shape_split:
  "email_shape s \<longleftrightarrow>
     (\<exists>l d t. s = l @ CHR ''@'' # d @ CHR ''.'' # t \<and> l \<noteq> [] \<and> d \<noteq> [] \<and> t \<noteq> [] \<and>
        list_all email_char l \<and> list_all email_char d \<and> list_all email_char t)"
  (is "?L \<longleftrightarrow> ?R")
proof
  assume ?L
  define l where "l = takeWhile (\<lambda>c. c \<noteq> CHR ''@'') s"
  define rest where "rest = dropWhile (\<lambda>c. c \<noteq> CHR ''@'') s"
  define dom where "dom = tl rest"
  from \<open>?L\<close> have e: "l \<noteq> []" "rest \<noteq> []" "CHR ''@'' \<notin> set dom"
      "CHR ''.'' \<in> set (butlast (tl dom))" "\<not> list_ex py_isspace s"
    by (simp_all add: email_shape_def Let_def l_def rest_def dom_def)
  have "hd rest = CHR ''@''"
    using e(2) hd_dropWhile [of "\<lambda>c. c \<noteq> CHR ''@''" s] by (simp add: rest_def)
  with e(2) have rest: "rest = CHR ''@'' # dom"
    by (cases rest) (simp_all add: dom_def)
  have "s = l @ rest"
    unfolding l_def rest_def by (simp only: takeWhile_dropWhile_id)
  with rest have s: "s = l @ CHR ''@'' # dom" by simp
  obtain a b where ab: "butlast (tl dom) = a @ CHR ''.'' # b"
    using e(4) by (meson split_list)
  then have ne: "tl dom \<noteq> []" by auto
  then have dne: "dom \<noteq> []" by auto
  have "tl dom = butlast (tl dom) @ [last (tl dom)]" using ne by simp
  with ab have "tl dom = a @ CHR ''.'' # b @ [last (tl dom)]" by simp
  with dne have dom: "dom = (hd dom # a) @ CHR ''.'' # (b @ [last (tl dom)])"
    by (cases dom) simp_all
  have nosp: "\<And>x. x \<in> set s \<Longrightarrow> \<not> py_isspace x"
    using e(5) by (simp add: list_ex_iff)
  have "\<And>x. x \<in> set l \<Longrightarrow> x \<noteq> CHR ''@''"
    unfolding l_def by (auto dest: set_takeWhileD)
  moreover have "set l \<subseteq> set s" using s by auto
  ultimately have cl: "list_all email_char l"
    using nosp by (auto simp: list_all_iff email_char_def)
  have sub: "set dom \<subseteq> set s" using s by auto
  have cdom: "list_all email_char dom"
    using nosp sub e(3) by (auto simp: list_all_iff email_char_def)
  have "list_all email_char ((hd dom # a) @ CHR ''.'' # (b @ [last (tl dom)]))"
    using cdom dom by simp
  then have cd: "list_all email_char (hd dom # a)" and ct: "list_all email_char (b @ [last (tl dom)])"
    by (simp_all add: list_all_iff)
  have "s = l @ CHR ''@'' # (hd dom # a) @ CHR ''.'' # (b @ [last (tl dom)])"
    using s dom by simp
  with e(1) cl cd ct show ?R by blast
next
  assume ?R
  then obtain l d t where r: "s = l @ CHR ''@'' # d @ CHR ''.'' # t"
      "l \<noteq> []" "d \<noteq> []" "t \<noteq> []"
      "list_all email_char l" "list_all email_char d" "list_all email_char t"
    by blast
  have l: "\<And>x. x \<in> set l \<Longrightarrow> x \<noteq> CHR ''@''"
    using r(5) by (simp add: list_all_iff email_char_def)
  have tw: "takeWhile (\<lambda>c. c \<noteq> CHR ''@'') s = l"
    unfolding r(1) using l by (simp add: takeWhile_append2)
  have dw: "dropWhile (\<lambda>c. c \<noteq> CHR ''@'') s = CHR ''@'' # d @ CHR ''.'' # t"
    unfolding r(1) using l by (simp add: dropWhile_append2)
  have d1: "CHR ''@'' \<notin> set (d @ CHR ''.'' # t)"
    using r(6,7) by (auto simp: list_all_iff email_char_def)
  have "tl (d @ CHR ''.'' # t) = tl d @ CHR ''.'' # t" using r(3) by simp
  moreover have "butlast (tl d @ CHR ''.'' # t) = tl d @ CHR ''.'' # butlast t"
    using r(4) by (simp add: butlast_append)
  ultimately have d2: "CHR ''.'' \<in> set (butlast (tl (d @ CHR ''.'' # t)))" by simp
  have "\<not> py_isspace CHR ''@''" "\<not> py_isspace CHR ''.''"
    by (simp_all add: py_isspace_def ord_def)
  moreover have "\<not> list_ex py_isspace l" "\<not> list_ex py_isspace d" "\<not> list_ex py_isspace t"
    using r(5,6,7) by (simp_all add: list_ex_iff list_all_iff email_char_def)
  ultimately have d3: "\<not> list_ex py_isspace s"
    unfolding r(1) by simp
  show ?L
    unfolding email_shape_def Let_def tw dw using r(2) d1 d2 d3 by simp
qed

lemma re_match_email:
  assumes "trimmed s"
  shows "re_match rx_email s False \<longleftrightarrow> email_shape s"
proof
  assume "email_shape s"
  then show "re_match rx_email s False"
    unfolding email_shape_split re_match_email_split by force
next
  assume "re_match rx_email s False"
  then obtain l d t z where r: "s = l @ CHR ''@'' # d @ CHR ''.'' # t @ z"
      "l \<noteq> []" "d \<noteq> []" "t \<noteq> []"
      "list_all email_char l" "list_all email_char d" "list_all email_char t"
      "z = [] \<or> z = [CHR 0x0A]"
    unfolding re_match_email_split by blast
  have "z = []"
  proof (rule ccontr)
    assume "z \<noteq> []"
    with r(8) have z: "z = [CHR 0x0A]" by simp
    have "last s = CHR 0x0A" unfolding r(1) z by simp
    moreover have "py_isspace (CHR 0x0A)" by (simp add: py_isspace_def ord_def)
    moreover have "s \<noteq> []" using r(1) by simp
    ultimately show False using assms by (simp add: trimmed_def)
  qed
  with r show "email_shape s"
    unfolding email_shape_split by force
qed

lemma not_phone_plus: "\<not> phone_char CHR ''+''"
  by (simp add: phone_char_def py_isdecimal_def py_isspace_def ord_def)

lemma ok_phone_char:
  "atom_ok False (Set False [Digit, Space, Ch CHR ''-'', Ch CHR ''('', Ch CHR '')'']) c = phone_char c"
  by (auto simp: phone_char_def)

lemma phone_tail:
  "accepts False [AtLeast 7 (Set False [Digit, Space, Ch CHR ''-'', Ch CHR ''('', Ch CHR '')'']), Eol] p v
     \<longleftrightarrow> 7 \<le> length v \<and> list_all phone_char v" (is "?L \<longleftrightarrow> ?R")
proof
  assume ?L
  then obtain u z where uz: "v = u @ z" "7 \<le> length u" "\<forall>x\<in>set u. phone_char x"
      "z = [] \<or> z = [CHR 0x0A]"
    unfolding accepts_AtLeast_Eol ok_phone_char by blast
  have "phone_char (CHR 0x0A)" by (simp add: phone_char_def py_isspace_def ord_def)
  with uz show ?R by (auto simp: list_all_iff)
next
  assume ?R
  then show ?L
    unfolding accepts_AtLeast_Eol ok_phone_char
    by (intro exI [of _ v] exI [of _ "[]"]) (simp add: list_all_iff)
qed

lemma re_match_phone: "re_match rx_phone s False \<longleftrightarrow> phone_shape s"
proof (cases s)
  case Nil
  then show ?thesis
    unfolding re_match_accepts rx_phone_def accepts_Bol accepts_Opt phone_tail
    by (simp add: phone_shape_def)
next
  case (Cons c cs)
  show ?thesis
  proof (cases "c = CHR ''+''")
    case True
    with Cons not_phone_plus show ?thesis
      unfolding re_match_accepts rx_phone_def accepts_Bol accepts_Opt phone_tail
      by (simp add: phone_shape_def)
  next
    case False
    with Cons show ?thesis
      unfolding re_match_accepts rx_phone_def accepts_Bol accepts_Opt phone_tail
      by (simp add: phone_shape_def)
  qed
qed

subsection \<open>Detection follows the order of the specification\<close>

lemma lower_literals:
  "lower ''mailto:'' = ''mailto:''" "lower ''tel:'' = ''tel:''"
  by code_simp+


lemma startswith_lower_tel: "startswith (lower c) ''tel:'' \<longleftrightarrow> ci_startswith c ''tel:''"
  by (simp only: ci_startswith_def lower_literals)

lemma detect_type_classify: "detect_type content = classify (strip content)"
proof -
  have w: "startswith (upper (strip content)) (code_points ''WIFI:'') \<longleftrightarrow>
      ci_startswith (strip content) ''WIFI:''"
    by (rule upper_startswith) simp
  have e: "re_match rx_email (strip content) False \<longleftrightarrow> email_shape (strip content)"
    by (rule re_match_email) (rule strip_trimmed)
  show ?thesis
    unfolding detect_type_def Let_def classify_def w e re_match_http re_match_www
      re_match_mailto re_match_tel re_match_phone
    by simp
qed




lemma rstrip_Cons: "\<not> py_isspace x \<Longrightarrow> rstrip (x # xs) = x # rstrip xs"
  by (simp add: rstrip_def dropWhile_append3)

lemma space_tolower: "py_isspace x \<Longrightarrow> py_tolower x = x"
  by (auto simp: py_isspace_def py_tolower_def Let_def)

lemma ci_startswith_rstrip:
  assumes "ci_startswith c p" and "\<forall>a\<in>set p. \<not> py_isspace (py_tolower a)"
  shows "ci_startswith (rstrip c) p"
  using assms
proof (induction p arbitrary: c)
  case Nil
  show ?case by (rule ci_startswith_Nil)
next
  case (Cons a p)
  from Cons.prems(1) obtain x c' where c: "c = x # c'" "py_tolower x = py_tolower a"
      "ci_startswith c' p"
    unfolding ci_startswith_Cons by blast
  have "\<not> py_isspace x"
  proof
    assume "py_isspace x"
    then have "py_tolower x = x" by (rule space_tolower)
    with c(2) \<open>py_isspace x\<close> Cons.prems(2) show False by simp
  qed
  then have "rstrip c = x # rstrip c'" unfolding c(1) by (rule rstrip_Cons)
  moreover have "ci_startswith (rstrip c') p"
    using Cons.IH [OF c(3)] Cons.prems(2) by simp
  ultimately show ?case using c(2) by (simp add: ci_startswith_Cons)
qed

lemma ci_startswith_strip:
  assumes "ci_startswith c p" and "p \<noteq> []" and "\<forall>a\<in>set p. \<not> py_isspace (py_tolower a)"
  shows "strip c = rstrip c" and "ci_startswith (strip c) p"
proof -
  obtain a p' where p: "p = a # p'" using assms(2) by (cases p) auto
  from assms(1) obtain x c' where c: "c = x # c'" "py_tolower x = py_tolower a"
    unfolding p ci_startswith_Cons by blast
  have "\<not> py_isspace x"
  proof
    assume "py_isspace x"
    then have "py_tolower x = x" by (rule space_tolower)
    with c(2) \<open>py_isspace x\<close> assms(3) p show False by simp
  qed
  then have "lstrip c = c" unfolding c(1) by (simp add: lstrip_def)
  then show "strip c = rstrip c" by (simp add: strip_def)
  with assms(1,3) show "ci_startswith (strip c) p" by (simp add: ci_startswith_rstrip)
qed

lemma wifi_not_space: "\<forall>a\<in>set ''WIFI:''. \<not> py_isspace (py_tolower a)"
  by (simp add: py_isspace_def py_tolower_def Let_def ord_def chr_def)

lemma classify_wifi: "ci_startswith c ''WIFI:'' \<Longrightarrow> classify c = ''wifi''"
  by (simp add: classify_def)

text \<open>
  C2 (as amended). For every string that starts with \<^verbatim>\<open>WIFI:\<close> in any letter case,
  \<open>detect_type\<close> returns wifi, and \<open>format_content\<close> with type wifi, text or other
  returns the string with its trailing whitespace removed; that is the string unchanged
  exactly when the string does not end in whitespace.
\<close>

theorem wifi_detect_format:
  assumes "ci_startswith c ''WIFI:''"
  shows "detect_type c = ''wifi'' \<and>
         format_content c ''wifi'' = rstrip c \<and>
         format_content c ''text'' = rstrip c \<and>
         format_content c ''other'' = rstrip c \<and>
         (rstrip c = c \<longleftrightarrow> \<not> py_isspace (last c))"
proof -
  have s: "strip c = rstrip c" and w: "ci_startswith (strip c) ''WIFI:''"
    using ci_startswith_strip [OF assms _ wifi_not_space] by simp_all
  have d: "detect_type c = ''wifi''"
    unfolding detect_type_classify using w by (rule classify_wifi)
  have ne: "rstrip c \<noteq> []"
    using w unfolding s by (auto simp: ci_startswith_Cons)
  have "rstrip c = c \<longleftrightarrow> \<not> py_isspace (last c)"
  proof
    assume "rstrip c = c"
    with rstrip_last [OF ne] show "\<not> py_isspace (last c)" by simp
  next
    assume "\<not> py_isspace (last c)"
    then show "rstrip c = c" by (simp add: rstrip_fix)
  qed
  with d s show ?thesis by (simp add: format_content_def)
qed

theorem wifi_detect_format_witness:
  "ci_startswith ''WIFI:T:WPA;S:MyNetwork;P:MyPassword;;'' ''WIFI:'' \<and>
   detect_type ''WIFI:T:WPA;S:MyNetwork;P:MyPassword;;'' = ''wifi'' \<and>
   format_content ''WIFI:T:WPA;S:MyNetwork;P:MyPassword;;'' ''wifi'' =
     ''WIFI:T:WPA;S:MyNetwork;P:MyPassword;;''"
proof -
  have h: "ci_startswith ''WIFI:T:WPA;S:MyNetwork;P:MyPassword;;'' ''WIFI:''" by code_simp
  have r: "rstrip ''WIFI:T:WPA;S:MyNetwork;P:MyPassword;;'' =
      ''WIFI:T:WPA;S:MyNetwork;P:MyPassword;;''" by code_simp
  have "detect_type ''WIFI:T:WPA;S:MyNetwork;P:MyPassword;;'' = ''wifi''"
    using wifi_detect_format [OF h] by (rule conjunct1)
  moreover have "format_content ''WIFI:T:WPA;S:MyNetwork;P:MyPassword;;'' ''wifi'' =
      rstrip ''WIFI:T:WPA;S:MyNetwork;P:MyPassword;;''"
    using wifi_detect_format [OF h] by blast
  ultimately show ?thesis using h r by simp
qed

text \<open>
  The claim as stated has the string returned unchanged. A payload followed by a space is
  returned without the space.
\<close>

theorem wifi_format_counterexample:
  "ci_startswith ''WIFI:T:WPA;S:MyNetwork;P:MyPassword;; '' ''WIFI:'' \<and>
   format_content ''WIFI:T:WPA;S:MyNetwork;P:MyPassword;; '' ''wifi'' \<noteq>
     ''WIFI:T:WPA;S:MyNetwork;P:MyPassword;; ''"
  by code_simp








subsection \<open>The temporary file is removed\<close>

lemma finally_block_removes: "\<not> os_path_exists (finally_block (Some name) w) name"
  by (simp add: finally_block_def os_path_exists_def os_unlink_def)

lemma run_preserves_absent:
  assumes "\<forall>k\<in>set ks. \<forall>u. \<not> os_path_exists u name \<longrightarrow> \<not> os_path_exists (snd (call e k u)) name"
    and "\<not> os_path_exists w name"
  shows "\<not> os_path_exists (snd (run e ks w)) name"
  using assms
proof (induction ks arbitrary: w)
  case Nil
  then show ?case by simp
next
  case (Cons k ks)
  obtain r w' where c: "call e k w = (r, w')" by (cases "call e k w")
  have w': "\<not> os_path_exists w' name"
    using Cons.prems c by fastforce
  show ?case
  proof (cases r)
    case (Raise x)
    with c w' show ?thesis by simp
  next
    case (Ret u)
    have "\<not> os_path_exists (snd (run e ks w')) name"
      using Cons.IH [of w'] Cons.prems(1) w' by simp
    with c Ret show ?thesis by simp
  qed
qed

text \<open>
  C4. Whenever \<open>create_pdf\<close> has created its temporary file, so that \<^verbatim>\<open>tmp_path\<close> holds
  its name, that path does not exist when \<open>create_pdf\<close> ends, whether it returns or
  raises, for every behaviour of the libraries and every input. The statements after the
  \<^verbatim>\<open>try\<close> statement are taken not to create that path themselves (the output path is
  another file).
\<close>

theorem create_pdf_removes_temp:
  assumes "create_pdf e label content qr_type output_path today w = (Some name, r, w')"
    and "\<forall>k\<in>set (post_calls content today output_path).
           \<forall>u. \<not> os_path_exists u name \<longrightarrow> \<not> os_path_exists (snd (call e k u)) name"
  shows "\<not> os_path_exists w' name"
proof -
  obtain r0 w1 where pre: "run e (pre_calls label qr_type) w = (r0, w1)"
    by (cases "run e (pre_calls label qr_type) w")
  show ?thesis
  proof (cases r0)
    case (Raise x)
    with pre assms(1) show ?thesis by (simp add: create_pdf_def)
  next
    case (Ret u)
    obtain tmp r1 w2 where t: "try_block e w1 = (tmp, r1, w2)"
      by (cases "try_block e w1")
    define w3 where "w3 = finally_block tmp w2"
    show ?thesis
    proof (cases r1)
      case (Raise x)
      with pre Ret t assms(1) have "tmp = Some name" "w' = w3"
        by (auto simp: create_pdf_def w3_def)
      then show ?thesis by (simp add: w3_def finally_block_removes)
    next
      case r1: (Ret v)
      obtain r2 w4 where p: "run e (post_calls content today output_path) w3 = (r2, w4)"
        by (cases "run e (post_calls content today output_path) w3")
      with pre Ret t r1 assms(1) have e: "tmp = Some name" "w' = w4"
        by (auto simp: create_pdf_def w3_def)
      then have "\<not> os_path_exists w3 name" by (simp add: w3_def finally_block_removes)
      with assms(2) have "\<not> os_path_exists (snd (run e (post_calls content today output_path) w3)) name"
        by (rule run_preserves_absent)
      with p e show ?thesis by simp
    qed
  qed
qed

lemma demo_run:
  "create_pdf demo_env ''My Website'' ''https://example.com'' ''url'' ''archive/my-website.pdf''
       ''January 05, 2026'' \<lparr>files = {}\<rparr> =
     (Some ''/tmp/tmpk3v9x1qz.png'', Ret (), \<lparr>files = {''archive/my-website.pdf''}\<rparr>)"
  by (simp add: create_pdf_def demo_env_def pre_calls_def post_calls_def try_block_def
      finally_block_def os_path_exists_def os_unlink_def)

lemma failing_run:
  "create_pdf failing_env ''My Website'' ''https://example.com'' ''url'' ''archive/my-website.pdf''
       ''January 05, 2026'' \<lparr>files = {}\<rparr> =
     (Some ''/tmp/tmpk3v9x1qz.png'', Raise (Exn ''image''), \<lparr>files = {}\<rparr>)"
  by (simp add: create_pdf_def failing_env_def demo_env_def pre_calls_def post_calls_def try_block_def
      finally_block_def os_path_exists_def os_unlink_def)

lemma demo_frame:
  "\<forall>k\<in>set (post_calls ''https://example.com'' ''January 05, 2026'' ''archive/my-website.pdf'').
      \<forall>u. \<not> os_path_exists u ''/tmp/tmpk3v9x1qz.png'' \<longrightarrow>
          \<not> os_path_exists (snd (call demo_env k u)) ''/tmp/tmpk3v9x1qz.png''"
  by (simp add: post_calls_def demo_env_def os_path_exists_def)

theorem create_pdf_removes_temp_witness:
  "create_pdf demo_env ''My Website'' ''https://example.com'' ''url'' ''archive/my-website.pdf''
       ''January 05, 2026'' \<lparr>files = {}\<rparr> =
     (Some ''/tmp/tmpk3v9x1qz.png'', Ret (), \<lparr>files = {''archive/my-website.pdf''}\<rparr>) \<and>
   \<not> os_path_exists \<lparr>files = {''archive/my-website.pdf''}\<rparr> ''/tmp/tmpk3v9x1qz.png'' \<and>
   create_pdf failing_env ''My Website'' ''https://example.com'' ''url'' ''archive/my-website.pdf''
       ''January 05, 2026'' \<lparr>files = {}\<rparr> =
     (Some ''/tmp/tmpk3v9x1qz.png'', Raise (Exn ''image''), \<lparr>files = {}\<rparr>)"
  using create_pdf_removes_temp [OF demo_run demo_frame] demo_run failing_run by simp

subsection \<open>Collision-free output paths\<close>

lemma digit_char_inj:
  assumes "digit_char a = digit_char b" and "a < 10" and "b < 10"
  shows "a = b"
  using assms by (simp add: digit_char_def chr_def)

lemma str_nat_nonempty: "str_nat n \<noteq> []"
  by (subst str_nat.simps) simp

lemma str_nat_inj: "str_nat n = str_nat m \<Longrightarrow> n = m"
proof (induction n arbitrary: m rule: str_nat.induct)
  case (1 n)
  show ?case
  proof (cases "n < 10")
    case n: True
    show ?thesis
    proof (cases "m < 10")
      case True
      with n "1.prems" show ?thesis
        by (simp add: str_nat.simps [of n] str_nat.simps [of m] digit_char_inj)
    next
      case False
      with n "1.prems" str_nat_nonempty [of "m div 10"] show ?thesis
        by (simp add: str_nat.simps [of n] str_nat.simps [of m])
    qed
  next
    case n: False
    show ?thesis
    proof (cases "m < 10")
      case True
      with n "1.prems" str_nat_nonempty [of "n div 10"] show ?thesis
        by (simp add: str_nat.simps [of n] str_nat.simps [of m])
    next
      case False
      with n "1.prems" have e: "str_nat (n div 10) = str_nat (m div 10)"
          "digit_char (n mod 10) = digit_char (m mod 10)"
        by (simp_all add: str_nat.simps [of n] str_nat.simps [of m])
      from "1.IH" [OF n e(1)] have "n div 10 = m div 10" .
      moreover from e(2) have "n mod 10 = m mod 10" by (rule digit_char_inj) simp_all
      ultimately show ?thesis by (metis div_mult_mod_eq)
    qed
  qed
qed

lemma join_cancel:
  assumes "os_path_join a b = os_path_join a b'" and "startswith b ''/'' = startswith b' ''/''"
  shows "b = b'"
  using assms by (auto simp: os_path_join_def split: if_splits)

lemma startswith_slash_append:
  "x \<noteq> [] \<Longrightarrow> startswith (x @ y) ''/'' = startswith x ''/''"
  by (cases x) (simp_all add: startswith_def)

lemma stem_inj: "stem b j = stem b k \<Longrightarrow> j = k"
  by (auto simp: stem_def split: if_splits dest: str_nat_inj)

lemma name_slash:
  assumes "ext \<noteq> []" and "\<not> startswith ext ''/''"
  shows "startswith (stem b k @ ext) ''/'' = (b \<noteq> [] \<and> hd b = CHR ''/'')"
proof (cases "b = []")
  case True
  with assms show ?thesis
    by (cases ext) (auto simp: stem_def startswith_def)
next
  case False
  then show ?thesis
    by (cases b) (auto simp: stem_def startswith_def)
qed

lemma join_stem_inj:
  assumes "os_path_join d (stem b j @ ext) = os_path_join d (stem b k @ ext)"
    and "ext \<noteq> []" and "\<not> startswith ext ''/''"
  shows "j = k"
proof -
  have "startswith (stem b j @ ext) ''/'' = startswith (stem b k @ ext) ''/''"
    by (simp add: name_slash [OF assms(2,3)])
  with assms(1) have "stem b j @ ext = stem b k @ ext" by (rule join_cancel)
  then show ?thesis by (simp add: stem_inj)
qed

lemma inj_png: "inj (\<lambda>k. fst (candidate d b k))"
  by (rule injI) (simp add: candidate_def, erule join_stem_inj, simp_all add: startswith_def)

lemma inj_pdf: "inj (\<lambda>k. snd (candidate d b k))"
  by (rule injI) (simp add: candidate_def, erule join_stem_inj, simp_all add: startswith_def)

lemma finite_taken:
  assumes "finite {p. exists p}"
  shows "finite {k. taken exists d b k}"
proof -
  have "{k. taken exists d b k} =
      (\<lambda>k. fst (candidate d b k)) -` {p. exists p} \<union> (\<lambda>k. snd (candidate d b k)) -` {p. exists p}"
    by (auto simp: taken_def)
  moreover have "finite ((\<lambda>k. fst (candidate d b k)) -` {p. exists p})"
    using assms inj_png by (rule finite_vimageI)
  moreover have "finite ((\<lambda>k. snd (candidate d b k)) -` {p. exists p})"
    using assms inj_pdf by (rule finite_vimageI)
  ultimately show ?thesis by simp
qed

lemma candidate_Suc:
  "candidate d b (Suc k) =
     (os_path_join d (b @ ''-'' @ str_nat (k + 2) @ ''.png''),
      os_path_join d (b @ ''-'' @ str_nat (k + 2) @ ''.pdf''))"
  by (simp add: candidate_def stem_def)

lemma resolve_loop_reaches:
  assumes "\<not> taken exists d b k0" and "\<forall>j<k0. taken exists d b j" and "k \<le> k0"
  shows "resolve_loop exists d b (k + 2) (fst (candidate d b k)) (snd (candidate d b k)) =
           Some (candidate d b k0)"
  using assms(3)
proof (induction "k0 - k" arbitrary: k)
  case 0
  then have "k = k0" by simp
  with assms(1) show ?case
    by (subst resolve_loop.simps) (simp add: taken_def)
next
  case (Suc n)
  then have lt: "k < k0" and n: "n = k0 - Suc k" and le: "Suc k \<le> k0" by simp_all
  from lt assms(2) have t: "taken exists d b k" by simp
  have "resolve_loop exists d b (k + 2) (fst (candidate d b k)) (snd (candidate d b k)) =
      resolve_loop exists d b (Suc k + 2) (fst (candidate d b (Suc k))) (snd (candidate d b (Suc k)))"
    using t by (subst resolve_loop.simps) (simp add: taken_def candidate_Suc)
  also have "\<dots> = Some (candidate d b k0)"
    using Suc.hyps(1) [OF n le] .
  finally show ?case .
qed

text \<open>
  C3. For every archive directory, base name and file system state (a state has finitely
  many paths that exist), \<open>resolve_paths\<close> returns, and returns the pair of paths of the
  first stem among \<open>base_name\<close>, \<open>base_name-2\<close>, \<open>base_name-3\<close>, ... for which neither the
  \<^verbatim>\<open>.png\<close> path nor the \<^verbatim>\<open>.pdf\<close> path exists: neither returned path exists, and every
  earlier stem has one of its two paths on disk.
\<close>

theorem resolve_paths_first_free:
  assumes "finite {p. exists p}"
  shows "\<exists>k. resolve_paths exists archive_dir base_name = Some (candidate archive_dir base_name k) \<and>
           \<not> exists (fst (candidate archive_dir base_name k)) \<and>
           \<not> exists (snd (candidate archive_dir base_name k)) \<and>
           (\<forall>j<k. exists (fst (candidate archive_dir base_name j)) \<or>
                   exists (snd (candidate archive_dir base_name j)))"
proof -
  have "finite {k. taken exists archive_dir base_name k}"
    using assms by (rule finite_taken)
  then obtain k1 where "k1 \<notin> {k. taken exists archive_dir base_name k}"
    using ex_new_if_finite [OF infinite_UNIV_nat] by blast
  then have k1: "\<not> taken exists archive_dir base_name k1" by simp
  define k0 where "k0 = (LEAST k. \<not> taken exists archive_dir base_name k)"
  have k0: "\<not> taken exists archive_dir base_name k0"
      "\<forall>j<k0. taken exists archive_dir base_name j"
    unfolding k0_def using k1 by (rule LeastI) (auto dest: not_less_Least)
  have c0: "candidate archive_dir base_name 0 =
      (os_path_join archive_dir (base_name @ ''.png''),
       os_path_join archive_dir (base_name @ ''.pdf''))"
    by (simp add: candidate_def stem_def)
  have "resolve_loop exists archive_dir base_name (0 + 2)
      (fst (candidate archive_dir base_name 0)) (snd (candidate archive_dir base_name 0)) =
      Some (candidate archive_dir base_name k0)"
    by (rule resolve_loop_reaches [OF k0]) simp
  then have "resolve_paths exists archive_dir base_name = Some (candidate archive_dir base_name k0)"
    unfolding resolve_paths_def c0 by (simp add: numeral_2_eq_2)
  with k0 show ?thesis unfolding taken_def by blast
qed

theorem resolve_paths_first_free_witness:
  "finite {p. p \<in> {''archive/a_2026-01-05.png'', ''archive/a_2026-01-05-2.pdf''}} \<and>
   resolve_paths (\<lambda>p. p \<in> {''archive/a_2026-01-05.png'', ''archive/a_2026-01-05-2.pdf''})
     ''archive'' ''a_2026-01-05'' =
     Some (''archive/a_2026-01-05-3.png'', ''archive/a_2026-01-05-3.pdf'')"
proof -
  define ex where "ex = (\<lambda>p::string. p \<in> {''archive/a_2026-01-05.png'', ''archive/a_2026-01-05-2.pdf''})"
  have f: "finite {p. ex p}" by (simp add: ex_def)
  have c: "candidate ''archive'' ''a_2026-01-05'' 0 = (''archive/a_2026-01-05.png'', ''archive/a_2026-01-05.pdf'')"
    "candidate ''archive'' ''a_2026-01-05'' 1 = (''archive/a_2026-01-05-2.png'', ''archive/a_2026-01-05-2.pdf'')"
    "candidate ''archive'' ''a_2026-01-05'' 2 = (''archive/a_2026-01-05-3.png'', ''archive/a_2026-01-05-3.pdf'')"
    by code_simp+
  from resolve_paths_first_free [OF f, of "''archive''" "''a_2026-01-05''"]
  obtain k where k: "resolve_paths ex ''archive'' ''a_2026-01-05'' =
        Some (candidate ''archive'' ''a_2026-01-05'' k)"
      "\<not> ex (fst (candidate ''archive'' ''a_2026-01-05'' k))"
      "\<not> ex (snd (candidate ''archive'' ''a_2026-01-05'' k))"
      "\<forall>j<k. ex (fst (candidate ''archive'' ''a_2026-01-05'' j)) \<or>
              ex (snd (candidate ''archive'' ''a_2026-01-05'' j))"
    by blast
  have "k \<noteq> 0"
  proof
    assume "k = 0"
    with k(2) c(1) show False by (simp add: ex_def)
  qed
  moreover have "k \<noteq> 1"
  proof
    assume "k = 1"
    with k(3) c(2) show False by (simp add: ex_def)
  qed
  moreover have "\<not> 2 < k"
  proof
    assume "2 < k"
    with k(4) have "ex (fst (candidate ''archive'' ''a_2026-01-05'' 2)) \<or>
        ex (snd (candidate ''archive'' ''a_2026-01-05'' 2))" by blast
    then show False unfolding c by (simp add: ex_def)
  qed
  ultimately have "k = 2" by arith
  with k(1) c(3) f show ?thesis unfolding ex_def by simp
qed

subsection \<open>File names from labels\<close>



























end
